theory Spec2Isabelle
  imports Main "HOL-Library.Word" "HOL-Library.List_Lexorder"
begin

unbundle bit_operations_syntax

section \<open>Byte slices, errors and outcomes\<close>

text \<open>
  The facade in \<^verbatim>\<open>bblot.go\<close> (package \<^verbatim>\<open>db\<close>) wraps a bbolt database. Bucket names,
  keys and values are Go byte slices. A Go function either returns (possibly with an
  \<^verbatim>\<open>error\<close> value next to its result) or panics; both are values of the model.
  The model covers an opened store whose file operations do not fail.
\<close>

type_synonym byte = "8 word"
type_synonym bytes = "byte list"

datatype error =
    ErrNotfound
  | ErrKeyRequired
  | ErrKeyTooLarge
  | ErrValueTooLarge
  | ErrTxNotWritable
  | ErrBucketNameRequired
  | io_EOF

datatype 'a outcome = Return 'a | Panic

text \<open>\<^verbatim>\<open>bytes.Compare\<close>: lexicographic on unsigned bytes; result \<open>-1\<close>, \<open>0\<close> or \<open>1\<close>.\<close>

fun bytes_Compare :: "bytes \<Rightarrow> bytes \<Rightarrow> int" where
  "bytes_Compare [] [] = 0"
| "bytes_Compare [] (y # ys) = - 1"
| "bytes_Compare (x # xs) [] = 1"
| "bytes_Compare (x # xs) (y # ys) =
     (if x < y then - 1 else if y < x then 1 else bytes_Compare xs ys)"

text \<open>\<^verbatim>\<open>bytes.HasPrefix(s, prefix)\<close>:
  \<^verbatim>\<open>len(s) >= len(prefix) && Equal(s[:len(prefix)], prefix)\<close>.\<close>

definition bytes_HasPrefix :: "bytes \<Rightarrow> bytes \<Rightarrow> bool" where
  "bytes_HasPrefix s prefix \<longleftrightarrow>
     length prefix \<le> length s \<and> take (length prefix) s = prefix"

text \<open>\<^verbatim>\<open>math.MaxUint64\<close>.\<close>

definition math_MaxUint64 :: "64 word" where
  "math_MaxUint64 = 0xFFFFFFFFFFFFFFFF"

text \<open>
  \<^verbatim>\<open>binary.BigEndian.Uint64(b)\<close> first evaluates \<^verbatim>\<open>b[7]\<close>, which panics on a slice
  shorter than 8 bytes, and then assembles the first eight bytes.
\<close>

definition BigEndian_Uint64 :: "bytes \<Rightarrow> 64 word outcome" where
  "BigEndian_Uint64 b =
     (if length b < 8 then Panic
      else Return (ucast (b ! 7) OR push_bit 8 (ucast (b ! 6)) OR push_bit 16 (ucast (b ! 5))
        OR push_bit 24 (ucast (b ! 4)) OR push_bit 32 (ucast (b ! 3))
        OR push_bit 40 (ucast (b ! 2)) OR push_bit 48 (ucast (b ! 1))
        OR push_bit 56 (ucast (b ! 0))))"

text \<open>\<^verbatim>\<open>binary.BigEndian.PutUint64(data, v)\<close> on \<^verbatim>\<open>data := make([]byte, 8)\<close>:
  the eight bytes written, most significant first.\<close>

definition BigEndian_PutUint64 :: "64 word \<Rightarrow> bytes" where
  "BigEndian_PutUint64 v =
     [ucast (drop_bit 56 v), ucast (drop_bit 48 v), ucast (drop_bit 40 v),
      ucast (drop_bit 32 v), ucast (drop_bit 24 v), ucast (drop_bit 16 v),
      ucast (drop_bit 8 v), ucast v]"

section \<open>The storage engine underneath the facade\<close>

text \<open>
  Modelled from the spec: the engine \<^verbatim>\<open>go.etcd.io/bbolt\<close> is imported by the facade and
  is not part of the sources. A bucket is an ordered key space with unique keys compared
  byte-lexicographically (spec 3); it is represented by its entries in ascending key
  order, the order of \<^verbatim>\<open>bytes.Compare\<close>. A database maps bucket names to buckets.
  The facade only ever creates top-level buckets, so buckets hold plain key/value
  entries. Where the spec is silent (a \<^verbatim>\<open>nil\<close> bucket handle, the errors of \<^verbatim>\<open>Put\<close> and
  \<^verbatim>\<open>Delete\<close>, a blank bucket name) the definitions follow the contract that the
  library documents for the method, as the comment of each definition says.
\<close>

type_synonym bucket = "(bytes \<times> bytes) list"
type_synonym db = "bytes \<rightharpoonup> bucket"

definition wf_bucket :: "bucket \<Rightarrow> bool" where
  "wf_bucket es \<longleftrightarrow> sorted_wrt (\<lambda>a b. bytes_Compare a b < 0) (map fst es)"

text \<open>
  Modelled from the spec: a transaction is a snapshot of the database together with a
  read-only/writable flag (spec 3, 4.3).
\<close>

record tx =
  writable :: bool
  buckets :: "bytes \<rightharpoonup> bucket"

text \<open>
  Modelled from the spec: \<^verbatim>\<open>db.Update(fn)\<close> runs \<^verbatim>\<open>fn\<close> in a writable transaction; it
  commits when \<^verbatim>\<open>fn\<close> returns \<^verbatim>\<open>nil\<close>, rolls back and passes the error through when
  \<^verbatim>\<open>fn\<close> returns an error, and rolls back when \<^verbatim>\<open>fn\<close> panics (spec 4.3). The component
  \<open>'r\<close> carries the variables of the caller that the closure assigns.
\<close>

definition db_Update ::
  "db \<Rightarrow> (tx \<Rightarrow> ('r \<times> error option \<times> tx) outcome) \<Rightarrow> ('r \<times> error option) outcome \<times> db" where
  "db_Update d fn =
     (case fn \<lparr>writable = True, buckets = d\<rparr> of
        Panic \<Rightarrow> (Panic, d)
      | Return (r, Some e, t') \<Rightarrow> (Return (r, Some e), d)
      | Return (r, None, t') \<Rightarrow> (Return (r, None), buckets t'))"

text \<open>
  Modelled from the spec: \<^verbatim>\<open>db.View(fn)\<close> runs \<^verbatim>\<open>fn\<close> in a read-only transaction, which
  is always rolled back; the error \<^verbatim>\<open>fn\<close> returns is passed through (spec 4.3).
\<close>

definition db_View ::
  "db \<Rightarrow> (tx \<Rightarrow> ('r \<times> error option \<times> tx) outcome) \<Rightarrow> ('r \<times> error option) outcome \<times> db" where
  "db_View d fn =
     (case fn \<lparr>writable = False, buckets = d\<rparr> of
        Panic \<Rightarrow> (Panic, d)
      | Return (r, e, t') \<Rightarrow> (Return (r, e), d))"

text \<open>
  Modelled from the spec: \<^verbatim>\<open>tx.Bucket(name)\<close> returns a handle on the bucket, or \<^verbatim>\<open>nil\<close>
  when the bucket does not exist. The handle is the bucket's name; \<open>None\<close> is \<^verbatim>\<open>nil\<close>.
  Every method of a bucket handle first reads the handle's transaction field, so a method
  called on a \<^verbatim>\<open>nil\<close> handle panics with a nil pointer dereference.
\<close>

definition tx_Bucket :: "tx \<Rightarrow> bytes \<Rightarrow> bytes option" where
  "tx_Bucket t name = (case buckets t name of None \<Rightarrow> None | Some es \<Rightarrow> Some name)"

definition deref :: "tx \<Rightarrow> bytes option \<Rightarrow> bucket outcome" where
  "deref t b =
     (case b of
        None \<Rightarrow> Panic
      | Some name \<Rightarrow> (case buckets t name of None \<Rightarrow> Panic | Some es \<Rightarrow> Return es))"

text \<open>
  Modelled from the spec: \<^verbatim>\<open>tx.CreateBucketIfNotExists(name)\<close> creates an empty bucket
  unless one of that name exists (spec 4.2, 6); the library rejects a blank name.
\<close>

definition tx_CreateBucketIfNotExists :: "tx \<Rightarrow> bytes \<Rightarrow> error option \<times> tx" where
  "tx_CreateBucketIfNotExists t name =
     (if \<not> writable t then (Some ErrTxNotWritable, t)
      else if length name = 0 then (Some ErrBucketNameRequired, t)
      else (case buckets t name of
              Some es \<Rightarrow> (None, t)
            | None \<Rightarrow> (None, t\<lparr>buckets := (buckets t)(name \<mapsto> [])\<rparr>)))"

text \<open>
  Modelled from the spec: \<^verbatim>\<open>b.Get(key)\<close> is the engine's \<open>find\<close> (spec 4.2): the value
  stored under the key, or \<^verbatim>\<open>nil\<close> when the key is absent. A stored value of length 0
  is read back as an empty slice that is not \<^verbatim>\<open>nil\<close>.
\<close>

definition Bucket_Get :: "tx \<Rightarrow> bytes option \<Rightarrow> bytes \<Rightarrow> bytes option outcome" where
  "Bucket_Get t b key =
     (case deref t b of Panic \<Rightarrow> Panic | Return es \<Rightarrow> Return (map_of es key))"

text \<open>
  Modelled from the spec: the ordered entries of a bucket after an insert, which replaces
  the value of an equal key, and after a delete (spec 4.2).
\<close>

fun node_put :: "bytes \<Rightarrow> bytes \<Rightarrow> bucket \<Rightarrow> bucket" where
  "node_put key val [] = [(key, val)]"
| "node_put key val (e # es) =
     (if bytes_Compare (fst e) key < 0 then e # node_put key val es
      else if fst e = key then (key, val) # es
      else (key, val) # e # es)"

fun node_del :: "bytes \<Rightarrow> bucket \<Rightarrow> bucket" where
  "node_del key [] = []"
| "node_del key (e # es) = (if fst e = key then es else e # node_del key es)"

text \<open>
  Modelled from the spec: the library's constants \<^verbatim>\<open>MaxKeySize = 32768\<close> and
  \<^verbatim>\<open>MaxValueSize = (1 << 31) - 2\<close>, the bounds on what a page can hold (spec 3).
\<close>

definition MaxKeySize :: nat where
  "MaxKeySize = 32768"

definition MaxValueSize :: nat where
  "MaxValueSize = 2147483646"

text \<open>
  Modelled from the spec: \<^verbatim>\<open>b.Put(key, value)\<close> is the engine's \<open>insert\<close> (spec 4.2), an
  upsert. The library returns an error, in this order, when the transaction is read-only,
  when the key is blank, when the key is longer than \<^verbatim>\<open>MaxKeySize\<close> and when the value is
  longer than \<^verbatim>\<open>MaxValueSize\<close>.
\<close>

definition Bucket_Put ::
  "tx \<Rightarrow> bytes option \<Rightarrow> bytes \<Rightarrow> bytes \<Rightarrow> (error option \<times> tx) outcome" where
  "Bucket_Put t b key val =
     (case b of
        None \<Rightarrow> Panic
      | Some name \<Rightarrow>
          (case buckets t name of
             None \<Rightarrow> Panic
           | Some es \<Rightarrow>
               if \<not> writable t then Return (Some ErrTxNotWritable, t)
               else if length key = 0 then Return (Some ErrKeyRequired, t)
               else if MaxKeySize < length key then Return (Some ErrKeyTooLarge, t)
               else if MaxValueSize < length val then Return (Some ErrValueTooLarge, t)
               else Return (None, t\<lparr>buckets := (buckets t)(name \<mapsto> node_put key val es)\<rparr>)))"

text \<open>
  Modelled from the spec: \<^verbatim>\<open>b.Delete(key)\<close> is the engine's \<open>delete\<close> (spec 4.2); a
  missing key is not an error. The library refuses it in a read-only transaction.
\<close>

definition Bucket_Delete :: "tx \<Rightarrow> bytes option \<Rightarrow> bytes \<Rightarrow> (error option \<times> tx) outcome" where
  "Bucket_Delete t b key =
     (case b of
        None \<Rightarrow> Panic
      | Some name \<Rightarrow>
          (case buckets t name of
             None \<Rightarrow> Panic
           | Some es \<Rightarrow>
               if \<not> writable t then Return (Some ErrTxNotWritable, t)
               else Return (None, t\<lparr>buckets := (buckets t)(name \<mapsto> node_del key es)\<rparr>)))"

text \<open>
  Modelled from the spec: a cursor traverses one bucket in ascending key order (spec 4.4).
  It is represented by the entries at and after its position: the head is the current
  item, the empty list is the end, where the library returns a \<^verbatim>\<open>nil\<close> key.
  \<^verbatim>\<open>c.First()\<close> is the whole bucket, \<^verbatim>\<open>c.Seek(k)\<close> positions at the first key
  \<open>\<ge> k\<close>, and \<^verbatim>\<open>c.Next()\<close> moves on to the tail, which the loops below do by
  recursion on the list.
\<close>

type_synonym cursor = "(bytes \<times> bytes) list"

definition Bucket_Cursor :: "tx \<Rightarrow> bytes option \<Rightarrow> bucket outcome" where
  "Bucket_Cursor t b = deref t b"

definition Cursor_First :: "bucket \<Rightarrow> cursor" where
  "Cursor_First es = es"

definition Cursor_Seek :: "bucket \<Rightarrow> bytes \<Rightarrow> cursor" where
  "Cursor_Seek es seek = dropWhile (\<lambda>e. bytes_Compare (fst e) seek < 0) es"

text \<open>
  Modelled from the spec: \<^verbatim>\<open>b.ForEach(fn)\<close> calls \<^verbatim>\<open>fn\<close> on every entry from
  \<^verbatim>\<open>c.First()\<close> on, following \<^verbatim>\<open>c.Next()\<close>, and returns the first error \<^verbatim>\<open>fn\<close>
  returns. The callback may have effects of its own: it transforms a state \<open>'s\<close>.
\<close>

fun ForEach_loop ::
  "(bytes \<Rightarrow> bytes \<Rightarrow> 's \<Rightarrow> error option \<times> 's) \<Rightarrow> cursor \<Rightarrow> 's \<Rightarrow> error option \<times> 's" where
  "ForEach_loop fn [] s = (None, s)"
| "ForEach_loop fn ((k, v) # c) s =
     (case fn k v s of
        (Some err, s') \<Rightarrow> (Some err, s')
      | (None, s') \<Rightarrow> ForEach_loop fn c s')"

definition Bucket_ForEach ::
  "tx \<Rightarrow> bytes option \<Rightarrow> (bytes \<Rightarrow> bytes \<Rightarrow> 's \<Rightarrow> error option \<times> 's) \<Rightarrow> 's
     \<Rightarrow> (error option \<times> 's) outcome" where
  "Bucket_ForEach t b fn s =
     (case deref t b of
        Panic \<Rightarrow> Panic
      | Return es \<Rightarrow> Return (ForEach_loop fn (Cursor_First es) s))"

section \<open>The facade\<close>

text \<open>
  The operations of \<^verbatim>\<open>Store\<close> in \<^verbatim>\<open>bblot.go\<close>, lines 37 to 136. Each takes the
  database and returns what the Go method returns, or \<open>Panic\<close>, together with the
  database afterwards.
\<close>

definition CreateBucketIfNotExist :: "db \<Rightarrow> bytes \<Rightarrow> error option outcome \<times> db" where
  "CreateBucketIfNotExist d bucket =
     apfst (map_outcome snd)
       (db_Update d (\<lambda>t.
          case tx_CreateBucketIfNotExists t bucket of
            (Some err, t') \<Rightarrow> Panic
          | (None, t') \<Rightarrow> Return ((), None, t')))"

text \<open>
  \<^verbatim>\<open>Incr\<close>: the named result \<^verbatim>\<open>n\<close> starts at 0 and keeps what the closure assigned to
  it, also when the closure returns an error.
\<close>

definition Incr :: "db \<Rightarrow> bytes \<Rightarrow> bytes \<Rightarrow> (64 word \<times> error option) outcome \<times> db" where
  "Incr d bucket key =
     db_Update d (\<lambda>t.
       let b = tx_Bucket t bucket in
       case Bucket_Get t b key of
         Panic \<Rightarrow> Panic
       | Return old \<Rightarrow>
           (case (case old of None \<Rightarrow> Return 0 | Some bs \<Rightarrow> BigEndian_Uint64 bs) of
              Panic \<Rightarrow> Panic
            | Return n \<Rightarrow>
                if n = math_MaxUint64 then Return (n, None, t)
                else
                  (let n = n + 1; data = BigEndian_PutUint64 n in
                   case Bucket_Put t b key data of
                     Panic \<Rightarrow> Panic
                   | Return (err, t') \<Rightarrow> Return (n, err, t'))))"

definition Save :: "db \<Rightarrow> bytes \<Rightarrow> bytes \<Rightarrow> bytes \<Rightarrow> error option outcome \<times> db" where
  "Save d bucket key val =
     apfst (map_outcome snd)
       (db_Update d (\<lambda>t.
          let b = tx_Bucket t bucket in
          case Bucket_Put t b key val of
            Panic \<Rightarrow> Panic
          | Return (err, t') \<Rightarrow> Return ((), err, t')))"

text \<open>\<^verbatim>\<open>Get\<close> returns the pair \<^verbatim>\<open>(val, err)\<close>; \<open>None\<close> in the first component is a
  \<^verbatim>\<open>nil\<close> slice.\<close>

definition Get :: "db \<Rightarrow> bytes \<Rightarrow> bytes \<Rightarrow> (bytes option \<times> error option) outcome \<times> db" where
  "Get d bucket key =
     db_View d (\<lambda>t.
       let b = tx_Bucket t bucket in
       case Bucket_Get t b key of
         Panic \<Rightarrow> Panic
       | Return val \<Rightarrow>
           if val = None then Return (val, Some ErrNotfound, t)
           else Return (val, None, t))"

definition Delete :: "db \<Rightarrow> bytes \<Rightarrow> bytes \<Rightarrow> error option outcome \<times> db" where
  "Delete d bucket key =
     apfst (map_outcome snd)
       (db_View d (\<lambda>t.
          let b = tx_Bucket t bucket in
          case Bucket_Delete t b key of
            Panic \<Rightarrow> Panic
          | Return (err, t') \<Rightarrow> Return ((), err, t')))"

text \<open>
  The scans take the visitor \<^verbatim>\<open>next\<close>. A Go closure may assign variables it captured,
  so a visitor transforms a state \<open>'s\<close> next to answering whether to go on; a scan
  returns the visitor's final state with its error.
\<close>

type_synonym 's visitor = "bytes \<Rightarrow> bytes \<Rightarrow> 's \<Rightarrow> bool \<times> 's"

definition Scan :: "db \<Rightarrow> bytes \<Rightarrow> 's visitor \<Rightarrow> 's \<Rightarrow> ('s \<times> error option) outcome \<times> db" where
  "Scan d bucket next s =
     db_View d (\<lambda>t.
       let b = tx_Bucket t bucket in
       case Bucket_ForEach t b
              (\<lambda>k v s. let (go, s') = next k v s in
                        if \<not> go then (Some io_EOF, s') else (None, s')) s of
         Panic \<Rightarrow> Panic
       | Return (err, s') \<Rightarrow> Return (s', err, t))"

fun FindPrefix_loop :: "bytes \<Rightarrow> 's visitor \<Rightarrow> cursor \<Rightarrow> 's \<Rightarrow> error option \<times> 's" where
  "FindPrefix_loop prefix next [] s = (None, s)"
| "FindPrefix_loop prefix next ((k, v) # c) s =
     (if bytes_HasPrefix k prefix then
        (let (go, s') = next k v s in
         if \<not> go then (Some io_EOF, s') else FindPrefix_loop prefix next c s')
      else (None, s))"

definition FindPrefix ::
  "db \<Rightarrow> bytes \<Rightarrow> bytes \<Rightarrow> 's visitor \<Rightarrow> 's \<Rightarrow> ('s \<times> error option) outcome \<times> db" where
  "FindPrefix d bucket prefix next s =
     db_View d (\<lambda>t.
       case Bucket_Cursor t (tx_Bucket t bucket) of
         Panic \<Rightarrow> Panic
       | Return es \<Rightarrow>
           (let (err, s') = FindPrefix_loop prefix next (Cursor_Seek es prefix) s
            in Return (s', err, t)))"

fun FindBetween_loop :: "bytes \<Rightarrow> 's visitor \<Rightarrow> cursor \<Rightarrow> 's \<Rightarrow> error option \<times> 's" where
  "FindBetween_loop endk next [] s = (None, s)"
| "FindBetween_loop endk next ((k, v) # c) s =
     (if bytes_Compare k endk \<le> 0 then
        (let (go, s') = next k v s in
         if \<not> go then (Some io_EOF, s') else FindBetween_loop endk next c s')
      else (None, s))"

definition FindBetween ::
  "db \<Rightarrow> bytes \<Rightarrow> bytes \<Rightarrow> bytes \<Rightarrow> 's visitor \<Rightarrow> 's \<Rightarrow> ('s \<times> error option) outcome \<times> db" where
  "FindBetween d bucket start endk next s =
     db_View d (\<lambda>t.
       let (start, endk) =
             (if 0 < bytes_Compare start endk then (endk, start) else (start, endk)) in
       case Bucket_Cursor t (tx_Bucket t bucket) of
         Panic \<Rightarrow> Panic
       | Return es \<Rightarrow>
           (let (err, s') = FindBetween_loop endk next (Cursor_Seek es start) s
            in Return (s', err, t)))"

text \<open>
  The file carries a second, related copy of the facade (lines 137 to 269). It has no
  \<^verbatim>\<open>Delete\<close>, and its \<^verbatim>\<open>Incr\<close> (lines 191 to 204) has no check for the maximum; the
  other operations are the same.
\<close>

definition Incr_related :: "db \<Rightarrow> bytes \<Rightarrow> bytes \<Rightarrow> (64 word \<times> error option) outcome \<times> db" where
  "Incr_related d bucket key =
     db_Update d (\<lambda>t.
       let b = tx_Bucket t bucket in
       case Bucket_Get t b key of
         Panic \<Rightarrow> Panic
       | Return old \<Rightarrow>
           (case (case old of None \<Rightarrow> Return 0 | Some bs \<Rightarrow> BigEndian_Uint64 bs) of
              Panic \<Rightarrow> Panic
            | Return n \<Rightarrow>
                (let n = n + 1; data = BigEndian_PutUint64 n in
                 case Bucket_Put t b key data of
                   Panic \<Rightarrow> Panic
                 | Return (err, t') \<Rightarrow> Return (n, err, t'))))"

section \<open>Vocabulary of the properties\<close>

text \<open>
  The bounds under which \<^verbatim>\<open>b.Put\<close> accepts an entry in a writable transaction.
\<close>

definition put_ok :: "bytes \<Rightarrow> bytes \<Rightarrow> bool" where
  "put_ok key val \<longleftrightarrow>
     0 < length key \<and> length key \<le> MaxKeySize \<and> length val \<le> MaxValueSize"

text \<open>
  A sequence of \<^verbatim>\<open>Save\<close> and \<^verbatim>\<open>Get\<close> calls on one bucket, the database after running
  it, and the value of the latest accepted \<^verbatim>\<open>Save\<close> of a key in it.
\<close>

datatype op = OpSave bytes bytes | OpGet bytes

fun run_ops :: "db \<Rightarrow> bytes \<Rightarrow> op list \<Rightarrow> db" where
  "run_ops d bucket [] = d"
| "run_ops d bucket (OpSave key val # ops) = run_ops (snd (Save d bucket key val)) bucket ops"
| "run_ops d bucket (OpGet key # ops) = run_ops (snd (Get d bucket key)) bucket ops"

fun last_Save :: "op list \<Rightarrow> bytes \<Rightarrow> bytes option" where
  "last_Save [] key = None"
| "last_Save (OpSave k v # ops) key =
     (case last_Save ops key of
        Some w \<Rightarrow> Some w
      | None \<Rightarrow> if k = key \<and> put_ok k v then Some v else None)"
| "last_Save (OpGet k # ops) key = last_Save ops key"

text \<open>The database after \<open>n\<close> calls of \<^verbatim>\<open>Incr\<close> on one key.\<close>

fun Incr_times :: "db \<Rightarrow> bytes \<Rightarrow> bytes \<Rightarrow> nat \<Rightarrow> db" where
  "Incr_times d bucket key 0 = d"
| "Incr_times d bucket key (Suc n) = snd (Incr (Incr_times d bucket key n) bucket key)"

text \<open>
  Calling a visitor on a list of entries in turn until it returns false; the error is
  the one the scans of the facade return. A visitor that appends every entry it is
  called on to a log and decides by \<open>go\<close> records what a scan visits.
\<close>

fun visit :: "'s visitor \<Rightarrow> (bytes \<times> bytes) list \<Rightarrow> 's \<Rightarrow> error option \<times> 's" where
  "visit next [] s = (None, s)"
| "visit next ((k, v) # xs) s =
     (let (go, s') = next k v s in
      if \<not> go then (Some io_EOF, s') else visit next xs s')"

definition logging :: "(bytes \<Rightarrow> bytes \<Rightarrow> bool) \<Rightarrow> (bytes \<times> bytes) list visitor" where
  "logging go k v log = (go k v, log @ [(k, v)])"

text \<open>
  What a scan over the entries \<open>xs\<close> visits when the visitor decides by \<open>go\<close>: the
  entries up to and including the first one that \<open>go\<close> rejects.
\<close>

definition visited ::
  "(bytes \<Rightarrow> bytes \<Rightarrow> bool) \<Rightarrow> (bytes \<times> bytes) list \<Rightarrow> (bytes \<times> bytes) list" where
  "visited go xs =
     takeWhile (\<lambda>e. go (fst e) (snd e)) xs @ take 1 (dropWhile (\<lambda>e. go (fst e) (snd e)) xs)"

text \<open>
  What a scan reports to its caller about an early stop, for a logging visitor that
  decides by \<open>go\<close>: the scan returns, its error is \<^verbatim>\<open>nil\<close> or \<^verbatim>\<open>io.EOF\<close>, and it is
  \<^verbatim>\<open>io.EOF\<close> exactly when the visitor returned false on an entry it was called on.
\<close>

definition stop_reported ::
  "(bytes \<Rightarrow> bytes \<Rightarrow> bool) \<Rightarrow> ((bytes \<times> bytes) list \<times> error option) outcome \<Rightarrow> bool" where
  "stop_reported go r =
     (case r of
        Panic \<Rightarrow> False
      | Return (log, err) \<Rightarrow>
          (err = None \<or> err = Some io_EOF) \<and>
          (err = Some io_EOF \<longleftrightarrow> (\<exists>e \<in> set log. \<not> go (fst e) (snd e))))"

text \<open>The databases that the facade produces from a new store.\<close>

definition wf_db :: "db \<Rightarrow> bool" where
  "wf_db d \<longleftrightarrow> (\<forall>bucket es. d bucket = Some es \<longrightarrow> wf_bucket es)"

inductive reachable :: "db \<Rightarrow> bool" where
  new_store: "reachable Map.empty"
| after_CreateBucketIfNotExist:
    "reachable d \<Longrightarrow> reachable (snd (CreateBucketIfNotExist d bucket))"
| after_Incr: "reachable d \<Longrightarrow> reachable (snd (Incr d bucket key))"
| after_Save: "reachable d \<Longrightarrow> reachable (snd (Save d bucket key val))"
| after_Delete: "reachable d \<Longrightarrow> reachable (snd (Delete d bucket key))"

section \<open>Basic facts\<close>

lemmas facade_defs = db_Update_def db_View_def tx_Bucket_def deref_def Bucket_Get_def
  Bucket_Put_def Bucket_Delete_def Bucket_Cursor_def Bucket_ForEach_def Cursor_First_def

subsection \<open>Byte order and prefixes\<close>

lemma bytes_Compare_neg: "bytes_Compare a b < 0 \<longleftrightarrow> a < b"
  by (induction a b rule: bytes_Compare.induct) auto

lemma bytes_Compare_zero: "bytes_Compare a b = 0 \<longleftrightarrow> a = b"
  by (induction a b rule: bytes_Compare.induct) auto

lemma bytes_Compare_pos: "0 < bytes_Compare a b \<longleftrightarrow> b < a"
  by (induction a b rule: bytes_Compare.induct) auto

lemma bytes_Compare_le: "bytes_Compare a b \<le> 0 \<longleftrightarrow> a \<le> b"
  using bytes_Compare_pos [of a b] by (simp add: not_less [symmetric])

lemma bytes_HasPrefix_iff: "bytes_HasPrefix s p \<longleftrightarrow> (\<exists>r. s = p @ r)"
  unfolding bytes_HasPrefix_def
  by (metis append_eq_conv_conj le_add1 length_append)

lemma HasPrefix_ge: "bytes_HasPrefix k p \<Longrightarrow> p \<le> k"
  unfolding bytes_HasPrefix_iff
proof (induction p arbitrary: k)
  case Nil then show ?case by simp
next
  case (Cons x p) then show ?case by auto
qed

lemma HasPrefix_convex:
  "p \<le> a \<Longrightarrow> a \<le> b \<Longrightarrow> bytes_HasPrefix b p \<Longrightarrow> bytes_HasPrefix a p"
  unfolding bytes_HasPrefix_iff
proof (induction p arbitrary: a b)
  case Nil then show ?case by simp
next
  case (Cons x p)
  then obtain r where b: "b = x # (p @ r)" by auto
  from Cons.prems(1) obtain y a' where a: "a = y # a'" by (cases a) auto
  from Cons.prems(1,2) a b have "y = x" "p \<le> a'" "a' \<le> p @ r" by auto
  with Cons.IH [of a' "p @ r"] a show ?case by auto
qed

lemma wf_bucket_iff: "wf_bucket es \<longleftrightarrow> sorted_wrt (<) (map fst es)"
  by (simp add: wf_bucket_def bytes_Compare_neg)

subsection \<open>Entries of a bucket\<close>

lemma map_of_node_put: "map_of (node_put key val es) = (map_of es)(key \<mapsto> val)"
  by (induction es) (auto simp: bytes_Compare_neg fun_eq_iff)

lemma set_node_put: "fst ` set (node_put key val es) = insert key (fst ` set es)"
  by (induction es) (auto simp: bytes_Compare_neg)

lemma wf_node_put: "wf_bucket es \<Longrightarrow> wf_bucket (node_put key val es)"
  unfolding wf_bucket_iff
proof (induction es)
  case Nil then show ?case by simp
next
  case (Cons e es)
  have "\<forall>x \<in> fst ` set (node_put key val es). fst e < x" if "fst e < key"
    using that Cons.prems by (auto simp: set_node_put)
  with Cons show ?case by (auto simp: bytes_Compare_neg)
qed


subsection \<open>Save, Get and Delete unfolded\<close>

lemma Save_eq:
  "Save d bucket key val =
     (case d bucket of
        None \<Rightarrow> (Panic, d)
      | Some es \<Rightarrow>
          if length key = 0 then (Return (Some ErrKeyRequired), d)
          else if MaxKeySize < length key then (Return (Some ErrKeyTooLarge), d)
          else if MaxValueSize < length val then (Return (Some ErrValueTooLarge), d)
          else (Return None, d(bucket \<mapsto> node_put key val es)))"
  by (simp add: Save_def facade_defs split: option.splits)

lemma Save_accepted:
  "d bucket = Some es \<Longrightarrow> put_ok key val \<Longrightarrow>
   Save d bucket key val = (Return None, d(bucket \<mapsto> node_put key val es))"
  by (auto simp add: Save_eq put_ok_def)

lemma Save_refused:
  "d bucket = Some es \<Longrightarrow> \<not> put_ok key val \<Longrightarrow> snd (Save d bucket key val) = d"
  by (auto simp add: Save_eq put_ok_def)

lemma Get_eq:
  "Get d bucket key =
     (case d bucket of
        None \<Rightarrow> (Panic, d)
      | Some es \<Rightarrow>
          (case map_of es key of
             None \<Rightarrow> (Return (None, Some ErrNotfound), d)
           | Some v \<Rightarrow> (Return (Some v, None), d)))"
  by (simp add: Get_def facade_defs split: option.splits)

lemma Get_state: "snd (Get d bucket key) = d"
  by (simp add: Get_eq split: option.splits)

lemma Delete_eq:
  "Delete d bucket key =
     (case d bucket of
        None \<Rightarrow> (Panic, d)
      | Some es \<Rightarrow> (Return (Some ErrTxNotWritable), d))"
  by (simp add: Delete_def facade_defs split: option.splits)

lemma run_ops_bucket:
  "d bucket = Some es \<Longrightarrow>
   \<exists>es'. run_ops d bucket ops bucket = Some es' \<and>
     (\<forall>key. map_of es' key =
        (case last_Save ops key of Some v \<Rightarrow> Some v | None \<Rightarrow> map_of es key))"
proof (induction ops arbitrary: d es)
  case Nil
  then show ?case by simp
next
  case (Cons x ops)
  show ?case
  proof (cases x)
    case (OpGet k)
    with Cons show ?thesis by (simp add: Get_state)
  next
    case (OpSave k v)
    show ?thesis
    proof (cases "put_ok k v")
      case True
      let ?d = "d(bucket \<mapsto> node_put k v es)"
      have "?d bucket = Some (node_put k v es)" by simp
      from Cons.IH [of ?d "node_put k v es", OF this] obtain es' where
        "run_ops ?d bucket ops bucket = Some es'"
        "\<forall>key. map_of es' key =
           (case last_Save ops key of Some w \<Rightarrow> Some w | None \<Rightarrow> map_of (node_put k v es) key)"
        by blast
      with True OpSave Cons.prems show ?thesis
        by (auto simp add: Save_accepted map_of_node_put split: option.splits)
    next
      case False
      from Cons.IH [of d es, OF Cons.prems] obtain es' where
        "run_ops d bucket ops bucket = Some es'"
        "\<forall>key. map_of es' key =
           (case last_Save ops key of Some w \<Rightarrow> Some w | None \<Rightarrow> map_of es key)"
        by blast
      with False OpSave Cons.prems show ?thesis
        by (auto simp add: Save_refused split: option.splits)
    qed
  qed
qed

subsection \<open>The counter encoding and Incr unfolded\<close>

lemma byte_of_drop: "(ucast (ucast (drop_bit k (v::64 word)) :: byte) :: 64 word) = take_bit 8 (drop_bit k v)"
  by (simp add: unsigned_ucast_eq)

lemma byte_of_word: "(ucast (ucast (v::64 word) :: byte) :: 64 word) = take_bit 8 v"
  by (simp add: unsigned_ucast_eq)

lemma bit_byte_at:
  "bit (push_bit k (take_bit 8 (drop_bit k (v::64 word)))) n \<longleftrightarrow> k \<le> n \<and> n < k + 8 \<and> bit v n"
  by (auto simp add: bit_simps dest: bit_imp_le_length)

lemma bytes_reassemble:
  "take_bit 8 v OR push_bit 8 (take_bit 8 (drop_bit 8 v)) OR push_bit 16 (take_bit 8 (drop_bit 16 v))
   OR push_bit 24 (take_bit 8 (drop_bit 24 v)) OR push_bit 32 (take_bit 8 (drop_bit 32 v))
   OR push_bit 40 (take_bit 8 (drop_bit 40 v)) OR push_bit 48 (take_bit 8 (drop_bit 48 v))
   OR push_bit 56 (take_bit 8 (drop_bit 56 v)) = (v::64 word)"
proof (rule bit_word_eqI)
  fix n assume n: "n < LENGTH(64)"
  have low: "bit (take_bit 8 v) n \<longleftrightarrow> n < 8 \<and> bit v n" by (simp add: bit_simps)
  from n have "n < 8 \<or> (8 \<le> n \<and> n < 16) \<or> (16 \<le> n \<and> n < 24) \<or> (24 \<le> n \<and> n < 32)
     \<or> (32 \<le> n \<and> n < 40) \<or> (40 \<le> n \<and> n < 48) \<or> (48 \<le> n \<and> n < 56) \<or> (56 \<le> n \<and> n < 64)"
    by simp arith
  then show "bit (take_bit 8 v OR push_bit 8 (take_bit 8 (drop_bit 8 v)) OR push_bit 16 (take_bit 8 (drop_bit 16 v))
   OR push_bit 24 (take_bit 8 (drop_bit 24 v)) OR push_bit 32 (take_bit 8 (drop_bit 32 v))
   OR push_bit 40 (take_bit 8 (drop_bit 40 v)) OR push_bit 48 (take_bit 8 (drop_bit 48 v))
   OR push_bit 56 (take_bit 8 (drop_bit 56 v))) n \<longleftrightarrow> bit v n"
    unfolding bit_or_iff bit_byte_at low by arith
qed

lemma Uint64_PutUint64: "BigEndian_Uint64 (BigEndian_PutUint64 v) = Return v"
  by (simp add: BigEndian_Uint64_def BigEndian_PutUint64_def byte_of_drop byte_of_word
      bytes_reassemble)

lemma length_PutUint64: "length (BigEndian_PutUint64 v) = 8"
  by (simp add: BigEndian_PutUint64_def)

lemma Incr_eq:
  "Incr d bucket key =
     (case d bucket of
        None \<Rightarrow> (Panic, d)
      | Some es \<Rightarrow>
          (case (case map_of es key of None \<Rightarrow> Return 0 | Some bs \<Rightarrow> BigEndian_Uint64 bs) of
             Panic \<Rightarrow> (Panic, d)
           | Return n \<Rightarrow>
               if n = math_MaxUint64 then (Return (n, None), d)
               else if length key = 0 then (Return (n + 1, Some ErrKeyRequired), d)
               else if MaxKeySize < length key then (Return (n + 1, Some ErrKeyTooLarge), d)
               else (Return (n + 1, None),
                     d(bucket \<mapsto> node_put key (BigEndian_PutUint64 (n + 1)) es))))"
  by (simp add: Incr_def facade_defs length_PutUint64 MaxValueSize_def Let_def
      split: option.splits outcome.splits)

lemma of_nat_not_max:
  assumes "Suc n < 2 ^ 64"
  shows "(of_nat n :: 64 word) \<noteq> math_MaxUint64"
proof
  assume "(of_nat n :: 64 word) = math_MaxUint64"
  then have "unat math_MaxUint64 = n"
    using assms by (intro of_nat_inverse) simp_all
  then show False using assms by (simp add: math_MaxUint64_def)
qed

lemma Incr_times_bucket:
  assumes "d bucket = Some es" "map_of es key = None"
    "0 < length key" "length key \<le> MaxKeySize"
  shows "n < 2 ^ 64 \<Longrightarrow>
     \<exists>es'. Incr_times d bucket key n bucket = Some es' \<and>
       map_of es' key = (if n = 0 then None else Some (BigEndian_PutUint64 (of_nat n)))"
proof (induction n)
  case 0
  with assms show ?case by simp
next
  case (Suc n)
  then obtain es' where
    b: "Incr_times d bucket key n bucket = Some es'" and
    m: "map_of es' key = (if n = 0 then None else Some (BigEndian_PutUint64 (of_nat n)))"
    by auto
  have dec: "(case map_of es' key of None \<Rightarrow> Return 0 | Some bs \<Rightarrow> BigEndian_Uint64 bs)
      = Return (of_nat n :: 64 word)"
    by (simp add: m Uint64_PutUint64)
  show ?case
    using assms(3,4) of_nat_not_max [OF Suc.prems]
    by (simp add: Incr_eq b dec map_of_node_put add.commute)
qed

subsection \<open>The scans unfolded\<close>

lemma ForEach_loop_visit:
  "ForEach_loop (\<lambda>k v s. case next k v s of
                            (go, s') \<Rightarrow> if \<not> go then (Some io_EOF, s') else (None, s')) xs s
     = visit next xs s"
  by (induction xs arbitrary: s) (auto split: prod.splits)

lemma Scan_eq:
  "Scan d bucket next s =
     (case d bucket of
        None \<Rightarrow> (Panic, d)
      | Some es \<Rightarrow> (case visit next es s of (err, s') \<Rightarrow> (Return (s', err), d)))"
  by (simp add: Scan_def facade_defs ForEach_loop_visit split: option.splits prod.splits)

lemma FindPrefix_unfold:
  "FindPrefix d bucket prefix next s =
     (case d bucket of
        None \<Rightarrow> (Panic, d)
      | Some es \<Rightarrow>
          (case FindPrefix_loop prefix next (Cursor_Seek es prefix) s of
             (err, s') \<Rightarrow> (Return (s', err), d)))"
  by (simp add: FindPrefix_def facade_defs split: option.splits prod.splits)

lemma FindBetween_unfold:
  "FindBetween d bucket start endk next s =
     (case d bucket of
        None \<Rightarrow> (Panic, d)
      | Some es \<Rightarrow>
          (if 0 < bytes_Compare start endk
           then (case FindBetween_loop start next (Cursor_Seek es endk) s of
                   (err, s') \<Rightarrow> (Return (s', err), d))
           else (case FindBetween_loop endk next (Cursor_Seek es start) s of
                   (err, s') \<Rightarrow> (Return (s', err), d))))"
  by (simp add: FindBetween_def facade_defs split: option.splits prod.splits)

lemma Cursor_Seek_sorted:
  "sorted_wrt (<) (map fst es) \<Longrightarrow> Cursor_Seek es seek = filter (\<lambda>e. seek \<le> fst e) es"
proof (induction es)
  case Nil
  then show ?case by (simp add: Cursor_Seek_def)
next
  case (Cons e es)
  show ?case
  proof (cases "fst e < seek")
    case True
    with Cons show ?thesis by (simp add: Cursor_Seek_def bytes_Compare_neg)
  next
    case False
    with Cons.prems have "\<forall>x \<in> set es. seek \<le> fst x" by fastforce
    then have "filter (\<lambda>e. seek \<le> fst e) es = es" by (simp add: filter_id_conv)
    with False show ?thesis by (simp add: Cursor_Seek_def bytes_Compare_neg)
  qed
qed

lemma FindPrefix_loop_sorted:
  "sorted_wrt (<) (map fst c) \<Longrightarrow> \<forall>e \<in> set c. prefix \<le> fst e \<Longrightarrow>
   FindPrefix_loop prefix next c s
     = visit next (filter (\<lambda>e. bytes_HasPrefix (fst e) prefix) c) s"
proof (induction c arbitrary: s)
  case Nil
  then show ?case by simp
next
  case (Cons e c)
  obtain k v where e: "e = (k, v)" by (cases e)
  show ?case
  proof (cases "bytes_HasPrefix k prefix")
    case True
    with Cons e show ?thesis by (auto split: prod.splits)
  next
    case False
    have "\<not> bytes_HasPrefix (fst x) prefix" if "x \<in> set c" for x
    proof
      assume "bytes_HasPrefix (fst x) prefix"
      moreover from Cons.prems e that have "prefix \<le> k" "k \<le> fst x" by auto
      ultimately have "bytes_HasPrefix k prefix" by (rule HasPrefix_convex [rotated 2])
      with False show False ..
    qed
    then have "filter (\<lambda>e. bytes_HasPrefix (fst e) prefix) c = []" by (simp add: filter_empty_conv)
    with False e show ?thesis by simp
  qed
qed

lemma FindBetween_loop_sorted:
  "sorted_wrt (<) (map fst c) \<Longrightarrow>
   FindBetween_loop endk next c s = visit next (filter (\<lambda>e. fst e \<le> endk) c) s"
proof (induction c arbitrary: s)
  case Nil
  then show ?case by simp
next
  case (Cons e c)
  obtain k v where e: "e = (k, v)" by (cases e)
  show ?case
  proof (cases "k \<le> endk")
    case True
    with Cons e show ?thesis by (auto simp: bytes_Compare_le split: prod.splits)
  next
    case False
    with Cons.prems e have "\<forall>x \<in> set c. \<not> fst x \<le> endk" by fastforce
    then have "filter (\<lambda>e. fst e \<le> endk) c = []" by (simp add: filter_empty_conv)
    with False e show ?thesis by (simp add: bytes_Compare_le)
  qed
qed

lemma FindPrefix_eq:
  assumes "d bucket = Some es" "wf_bucket es"
  shows "FindPrefix d bucket prefix next s =
     (case visit next (filter (\<lambda>e. bytes_HasPrefix (fst e) prefix) es) s of
        (err, s') \<Rightarrow> (Return (s', err), d))"
proof -
  from assms(2) have sorted: "sorted_wrt (<) (map fst es)" by (simp add: wf_bucket_iff)
  let ?c = "filter (\<lambda>e. prefix \<le> fst e) es"
  have "sorted_wrt (<) (map fst ?c)"
    using sorted by (simp add: sorted_wrt_map sorted_wrt_filter)
  then have "FindPrefix_loop prefix next ?c s
     = visit next (filter (\<lambda>e. bytes_HasPrefix (fst e) prefix) ?c) s"
    by (rule FindPrefix_loop_sorted) simp
  moreover have "filter (\<lambda>e. bytes_HasPrefix (fst e) prefix) ?c
     = filter (\<lambda>e. bytes_HasPrefix (fst e) prefix) es"
    by (auto simp: HasPrefix_ge intro: filter_cong)
  ultimately show ?thesis
    by (simp add: FindPrefix_unfold assms(1) Cursor_Seek_sorted [OF sorted])
qed

lemma FindBetween_ordered:
  assumes "d bucket = Some es" "wf_bucket es" "bytes_Compare start endk \<le> 0"
  shows "FindBetween d bucket start endk next s =
     (case visit next (filter (\<lambda>e. bytes_Compare start (fst e) \<le> 0 \<and>
                                   bytes_Compare (fst e) endk \<le> 0) es) s of
        (err, s') \<Rightarrow> (Return (s', err), d))"
proof -
  from assms(2) have sorted: "sorted_wrt (<) (map fst es)" by (simp add: wf_bucket_iff)
  let ?c = "filter (\<lambda>e. start \<le> fst e) es"
  have "sorted_wrt (<) (map fst ?c)"
    using sorted by (simp add: sorted_wrt_map sorted_wrt_filter)
  then have "FindBetween_loop endk next ?c s = visit next (filter (\<lambda>e. fst e \<le> endk) ?c) s"
    by (rule FindBetween_loop_sorted)
  moreover have "\<not> 0 < bytes_Compare start endk" using assms(3) by simp
  ultimately show ?thesis
    by (simp add: FindBetween_unfold assms(1) Cursor_Seek_sorted [OF sorted]
        bytes_Compare_le conj_commute)
qed

lemma FindBetween_swap:
  "FindBetween d bucket start endk next s = FindBetween d bucket endk start next s"
proof -
  consider "start < endk" | "start = endk" | "endk < start" by (rule linorder_cases)
  then show ?thesis
  proof cases
    case 1
    then show ?thesis by (auto simp add: FindBetween_unfold bytes_Compare_pos split: option.splits)
  next
    case 2
    then show ?thesis by simp
  next
    case 3
    then show ?thesis by (auto simp add: FindBetween_unfold bytes_Compare_pos split: option.splits)
  qed
qed

lemma visit_logging:
  "visit (logging go) xs log =
     (if \<forall>e \<in> set xs. go (fst e) (snd e) then None else Some io_EOF, log @ visited go xs)"
proof (induction xs arbitrary: log)
  case Nil
  show ?case by (simp add: visited_def)
next
  case (Cons e xs)
  obtain k v where e: "e = (k, v)" by (cases e)
  show ?case
  proof (cases "go k v")
    case True
    have "visit (logging go) (e # xs) log = visit (logging go) xs (log @ [e])"
      using True e by (simp add: logging_def)
    also have "\<dots> = (if \<forall>e \<in> set xs. go (fst e) (snd e) then None else Some io_EOF,
        (log @ [e]) @ visited go xs)"
      by (rule Cons.IH)
    also have "(log @ [e]) @ visited go xs = log @ visited go (e # xs)"
      using True e by (simp add: visited_def)
    finally show ?thesis using True e by simp
  next
    case False
    with e show ?thesis by (simp add: logging_def visited_def)
  qed
qed

lemma visited_all: "\<forall>e \<in> set xs. go (fst e) (snd e) \<Longrightarrow> visited go xs = xs"
  by (induction xs) (simp_all add: visited_def)

lemma visited_prefix: "\<exists>ys. xs = visited go xs @ ys"
proof
  show "xs = visited go xs @ drop 1 (dropWhile (\<lambda>e. go (fst e) (snd e)) xs)"
    by (simp only: visited_def append_assoc append_take_drop_id takeWhile_dropWhile_id)
qed

lemma visited_rejects:
  "(\<exists>e \<in> set (visited go xs). \<not> go (fst e) (snd e)) \<longleftrightarrow> \<not> (\<forall>e \<in> set xs. go (fst e) (snd e))"
proof (induction xs)
  case Nil
  show ?case by (simp add: visited_def)
next
  case (Cons e xs)
  have "visited go (e # xs) = (if go (fst e) (snd e) then e # visited go xs else [e])"
    by (simp add: visited_def)
  with Cons show ?case by simp
qed


lemma visited_butlast: "\<forall>e \<in> set (butlast (visited go xs)). go (fst e) (snd e)"
proof (induction xs)
  case Nil
  show ?case by (simp add: visited_def)
next
  case (Cons e xs)
  have v: "visited go (e # xs) = (if go (fst e) (snd e) then e # visited go xs else [e])"
    by (simp add: visited_def)
  show ?case
  proof (cases "go (fst e) (snd e)")
    case True
    with Cons v show ?thesis by (auto dest: in_set_butlastD split: if_splits)
  next
    case False
    with v show ?thesis by simp
  qed
qed

lemma visit_logging_stop:
  "\<exists>log err. visit (logging go) xs [] = (err, log) \<and> (err = None \<or> err = Some io_EOF) \<and>
     (err = Some io_EOF \<longleftrightarrow> (\<exists>e \<in> set log. \<not> go (fst e) (snd e)))"
  using visited_rejects [of go xs] by (simp add: visit_logging)

lemma CreateBucketIfNotExist_eq:
  "CreateBucketIfNotExist d bucket =
     (if length bucket = 0 then (Panic, d)
      else (case d bucket of
              Some es \<Rightarrow> (Return None, d)
            | None \<Rightarrow> (Return None, d(bucket \<mapsto> []))))"
  by (simp add: CreateBucketIfNotExist_def db_Update_def tx_CreateBucketIfNotExists_def
      split: option.splits)

lemma wf_db_update: "wf_db d \<Longrightarrow> wf_bucket es \<Longrightarrow> wf_db (d(bucket \<mapsto> es))"
  by (simp add: wf_db_def)

lemma wf_db_bucket: "wf_db d \<Longrightarrow> d bucket = Some es \<Longrightarrow> wf_bucket es"
  by (simp add: wf_db_def)

lemma reachable_wf: "reachable d \<Longrightarrow> wf_db d"
proof (induction rule: reachable.induct)
  case new_store
  show ?case by (simp add: wf_db_def)
next
  case (after_CreateBucketIfNotExist d bucket)
  then show ?case
    by (auto simp add: CreateBucketIfNotExist_eq wf_bucket_def intro: wf_db_update
        split: option.splits)
next
  case (after_Incr d bucket key)
  then show ?case
    by (auto simp add: Incr_eq intro!: wf_db_update wf_node_put dest: wf_db_bucket
        split: option.splits outcome.splits)
next
  case (after_Save d bucket key val)
  then show ?case
    by (auto simp add: Save_eq intro!: wf_db_update wf_node_put dest: wf_db_bucket
        split: option.splits)
next
  case (after_Delete d bucket key)
  then show ?case by (auto simp add: Delete_eq split: option.splits)
qed

lemma wf_bucket_entries:
  "wf_bucket es \<Longrightarrow> sorted_wrt (\<lambda>a b. bytes_Compare (fst a) (fst b) < 0) es"
  by (simp add: wf_bucket_def sorted_wrt_map)

lemma wf_bucket_distinct: "wf_bucket es \<Longrightarrow> distinct (map fst es)"
  by (simp add: wf_bucket_iff strict_sorted_iff)


lemma stop_reported_visit:
  "stop_reported go
     (fst (case visit (logging go) xs [] of (err, s') \<Rightarrow> (Return (s', err), d)))"
  using visited_rejects [of go xs] by (simp add: stop_reported_def visit_logging)

lemma visit_Cons:
  "visit next ((k, v) # xs) s =
     (if fst (next k v s) then visit next xs (snd (next k v s))
      else (Some io_EOF, snd (next k v s)))"
  by (simp split: prod.splits)

lemma visit_error: "fst (visit next xs s) = None \<or> fst (visit next xs s) = Some io_EOF"
proof (induction xs arbitrary: s)
  case Nil
  show ?case by simp
next
  case (Cons e xs)
  obtain k v where e: "e = (k, v)" by (cases e)
  from Cons.IH [of "snd (next k v s)"] show ?case
    unfolding e visit_Cons by (cases "fst (next k v s)") simp_all
qed

lemma visit_stops_at:
  "visit next pre s = (None, s0) \<Longrightarrow> \<not> fst (next k v s0) \<Longrightarrow>
   visit next (pre @ (k, v) # post) s = (Some io_EOF, snd (next k v s0))"
proof (induction pre arbitrary: s)
  case Nil
  then show ?case by (simp only: append_Nil visit_Cons visit.simps(1)) simp
next
  case (Cons e pre)
  obtain k' v' where e: "e = (k', v')" by (cases e)
  from Cons.prems(1) have go: "fst (next k' v' s)"
    unfolding e visit_Cons by (cases "fst (next k' v' s)") simp_all
  with Cons.prems(1) have rest: "visit next pre (snd (next k' v' s)) = (None, s0)"
    unfolding e visit_Cons by simp
  from Cons.IH [OF rest Cons.prems(2)] go show ?case
    unfolding e append_Cons visit_Cons by simp
qed

lemma visit_EOF_split:
  "fst (visit next xs s) = Some io_EOF \<Longrightarrow>
   \<exists>pre k v post s0. xs = pre @ (k, v) # post \<and> visit next pre s = (None, s0) \<and>
     \<not> fst (next k v s0)"
proof (induction xs arbitrary: s)
  case Nil
  then show ?case by simp
next
  case (Cons e xs)
  obtain k' v' where e: "e = (k', v')" by (cases e)
  show ?case
  proof (cases "fst (next k' v' s)")
    case False
    have "e # xs = [] @ (k', v') # xs \<and> visit next [] s = (None, s) \<and> \<not> fst (next k' v' s)"
      using e False by simp
    then show ?thesis by blast
  next
    case True
    with Cons.prems have "fst (visit next xs (snd (next k' v' s))) = Some io_EOF"
      unfolding e visit_Cons by simp
    from Cons.IH [OF this] obtain pre k v post s0 where
      p: "xs = pre @ (k, v) # post" "visit next pre (snd (next k' v' s)) = (None, s0)"
        "\<not> fst (next k v s0)"
      by blast
    have "visit next (e # pre) s = (None, s0)"
      unfolding e visit_Cons using True p(2) by simp
    with p(1,3) have "e # xs = (e # pre) @ (k, v) # post \<and> visit next (e # pre) s = (None, s0) \<and>
        \<not> fst (next k v s0)"
      by simp
    then show ?thesis by blast
  qed
qed

lemma FindBetween_eq:
  assumes "d bucket = Some es" "wf_bucket es"
  shows "FindBetween d bucket start endk next s =
     (case visit next
        (filter (\<lambda>e. bytes_Compare (if 0 < bytes_Compare start endk then endk else start) (fst e) \<le> 0 \<and>
                      bytes_Compare (fst e) (if 0 < bytes_Compare start endk then start else endk) \<le> 0)
           es) s of
        (err, s') \<Rightarrow> (Return (s', err), d))"
proof (cases "0 < bytes_Compare start endk")
  case False
  then have "bytes_Compare start endk \<le> 0" by simp
  from FindBetween_ordered [of d bucket es start endk "next" s, OF assms this] False
  show ?thesis by simp
next
  case True
  then have "bytes_Compare endk start \<le> 0"
    by (simp add: bytes_Compare_pos bytes_Compare_le)
  from FindBetween_ordered [of d bucket es endk start "next" s, OF assms this] True
  show ?thesis by (simp add: FindBetween_swap [of d bucket start endk])
qed

section \<open>Save and Get\<close>

text \<open>
  Claim C1, as amended. In an existing bucket, after any sequence of \<^verbatim>\<open>Save\<close> and
  \<^verbatim>\<open>Get\<close> calls, \<^verbatim>\<open>Get(bucket, key)\<close> returns exactly the value of the most recent
  \<^verbatim>\<open>Save\<close> of that key which the engine accepted (key not blank and at most 32768 bytes,
  value at most 2147483646 bytes), with no error; when the sequence holds no accepted
  \<^verbatim>\<open>Save\<close> of the key, \<^verbatim>\<open>Get\<close> returns what it returned before the sequence.
  At any point of the sequence an accepted \<^verbatim>\<open>Save\<close> returns no error and the value is
  read back by \<^verbatim>\<open>Get\<close>, and a \<^verbatim>\<open>Save\<close> outside these bounds returns the error of the
  first bound it breaks (\<^verbatim>\<open>ErrKeyRequired\<close>, \<^verbatim>\<open>ErrKeyTooLarge\<close>, \<^verbatim>\<open>ErrValueTooLarge\<close>)
  and stores nothing.
\<close>

theorem Get_returns_last_Save:
  assumes "d bucket = Some es"
  shows "fst (Get (run_ops d bucket ops) bucket key) =
           (case last_Save ops key of
              Some val \<Rightarrow> Return (Some val, None)
            | None \<Rightarrow> fst (Get d bucket key)) \<and>
     fst (Save (run_ops d bucket ops) bucket k v) =
       Return (if put_ok k v then None
               else if length k = 0 then Some ErrKeyRequired
               else if MaxKeySize < length k then Some ErrKeyTooLarge
               else Some ErrValueTooLarge) \<and>
     (\<not> put_ok k v \<longrightarrow>
        snd (Save (run_ops d bucket ops) bucket k v) = run_ops d bucket ops) \<and>
     (put_ok k v \<longrightarrow>
        fst (Get (snd (Save (run_ops d bucket ops) bucket k v)) bucket k)
          = Return (Some v, None))"
proof -
  from run_ops_bucket [of d bucket es ops, OF assms] obtain es' where
    r: "run_ops d bucket ops bucket = Some es'" and
    m: "\<And>key. map_of es' key =
           (case last_Save ops key of Some v \<Rightarrow> Some v | None \<Rightarrow> map_of es key)"
    by blast
  have get: "fst (Get (run_ops d bucket ops) bucket key) =
           (case last_Save ops key of
              Some val \<Rightarrow> Return (Some val, None)
            | None \<Rightarrow> fst (Get d bucket key))"
    by (simp add: Get_eq r assms m split: option.splits)
  have result: "fst (Save (run_ops d bucket ops) bucket k v) =
       Return (if put_ok k v then None
               else if length k = 0 then Some ErrKeyRequired
               else if MaxKeySize < length k then Some ErrKeyTooLarge
               else Some ErrValueTooLarge)"
    by (auto simp add: Save_eq r put_ok_def)
  have refused: "snd (Save (run_ops d bucket ops) bucket k v) = run_ops d bucket ops"
    if "\<not> put_ok k v"
    using r that by (auto simp add: Save_eq put_ok_def)
  have stored: "fst (Get (snd (Save (run_ops d bucket ops) bucket k v)) bucket k)
          = Return (Some v, None)" if "put_ok k v"
    using r that by (auto simp add: Save_eq put_ok_def Get_eq map_of_node_put)
  from get result refused stored show ?thesis by blast
qed

theorem Get_returns_last_Save_witness:
  "([[98] \<mapsto> []] :: db) [98] = Some [] \<and>
   fst (Get (run_ops [[98] \<mapsto> []] [98]
          [OpSave [1] [10], OpSave [2] [20], OpGet [1], OpSave [1] [11], OpSave [] [7]]) [98] [1])
     = Return (Some [11], None) \<and>
   \<not> put_ok [] [7] \<and>
   fst (Save (run_ops [[98] \<mapsto> []] [98] [OpSave [1] [10]]) [98] [] [7])
     = Return (Some ErrKeyRequired) \<and>
   snd (Save (run_ops [[98] \<mapsto> []] [98] [OpSave [1] [10]]) [98] [] [7])
     = run_ops [[98] \<mapsto> []] [98] [OpSave [1] [10]] \<and>
   put_ok [2] [20] \<and>
   fst (Save (run_ops [[98] \<mapsto> []] [98] [OpSave [1] [10]]) [98] [2] [20]) = Return None \<and>
   fst (Get (snd (Save (run_ops [[98] \<mapsto> []] [98] [OpSave [1] [10]]) [98] [2] [20])) [98] [2])
     = Return (Some [20], None)"
proof -
  let ?d = "[[98] \<mapsto> []] :: db"
  have h: "?d [98] = Some []" by simp
  have ok: "\<not> put_ok [] [7]" "put_ok [2] [20]"
    by (simp_all add: put_ok_def MaxKeySize_def MaxValueSize_def)
  have ls: "last_Save [OpSave [1] [10], OpSave [2] [20], OpGet [1], OpSave [1] [11],
      OpSave [] [7]] [1] = Some [11]"
    by (simp add: put_ok_def MaxKeySize_def MaxValueSize_def)
  from Get_returns_last_Save [of ?d "[98]" "[]"
     "[OpSave [1] [10], OpSave [2] [20], OpGet [1], OpSave [1] [11], OpSave [] [7]]" "[1]", OF h]
  have a: "fst (Get (run_ops ?d [98]
          [OpSave [1] [10], OpSave [2] [20], OpGet [1], OpSave [1] [11], OpSave [] [7]]) [98] [1])
     = Return (Some [11], None)"
    unfolding ls by simp
  from Get_returns_last_Save [of ?d "[98]" "[]" "[OpSave [1] [10]]" "[]" "[]" "[7]", OF h] ok
  have b: "fst (Save (run_ops ?d [98] [OpSave [1] [10]]) [98] [] [7])
       = Return (Some ErrKeyRequired)"
    and c: "snd (Save (run_ops ?d [98] [OpSave [1] [10]]) [98] [] [7])
       = run_ops ?d [98] [OpSave [1] [10]]"
    by simp_all
  from Get_returns_last_Save [of ?d "[98]" "[]" "[OpSave [1] [10]]" "[]" "[2]" "[20]", OF h] ok
  have e: "fst (Save (run_ops ?d [98] [OpSave [1] [10]]) [98] [2] [20]) = Return None"
    and f: "fst (Get (snd (Save (run_ops ?d [98] [OpSave [1] [10]]) [98] [2] [20])) [98] [2])
       = Return (Some [20], None)"
    by simp_all
  show ?thesis by (intro conjI) (fact h ok a b c e f)+
qed

text \<open>
  Claim C1 as stated fails at the blank key: \<^verbatim>\<open>Save\<close> of a blank key is refused with
  \<^verbatim>\<open>ErrKeyRequired\<close>, and the following \<^verbatim>\<open>Get\<close> does not return the value.
\<close>

theorem Save_blank_key_counterexample:
  "fst (Save [[98] \<mapsto> []] [98] [] [7]) = Return (Some ErrKeyRequired) \<and>
   fst (Get (snd (Save [[98] \<mapsto> []] [98] [] [7])) [98] []) \<noteq> Return (Some [7], None)"
  by (simp add: Save_eq Get_eq)

text \<open>
  Claim C2, as amended. In an existing bucket, \<^verbatim>\<open>Get\<close> of a key that the bucket does not
  hold returns \<^verbatim>\<open>ErrNotfound\<close> as an ordinary error value, next to a \<^verbatim>\<open>nil\<close> value,
  and leaves the database as it was.
\<close>

theorem Get_absent_key:
  assumes "d bucket = Some es" "key \<notin> fst ` set es"
  shows "Get d bucket key = (Return (None, Some ErrNotfound), d)"
  using assms by (simp add: Get_eq map_of_eq_None_iff [THEN iffD2])

theorem Get_absent_key_witness:
  "([[98] \<mapsto> [([1], [10])]] :: db) [98] = Some [([1], [10])] \<and>
   [2 :: byte] \<notin> fst ` set [([1 :: byte], [10 :: byte])] \<and>
   fst (Get [[98] \<mapsto> [([1], [10])]] [98] [2]) = Return (None, Some ErrNotfound)"
  using Get_absent_key [of "[[98] \<mapsto> [([1], [10])]]" "[98]" "[([1], [10])]" "[2]"]
  by simp

text \<open>
  Claim C2 as stated fails for an absent bucket: \<^verbatim>\<open>tx.Bucket\<close> returns \<^verbatim>\<open>nil\<close> and
  \<^verbatim>\<open>b.Get\<close> on it panics, so no \<^verbatim>\<open>ErrNotfound\<close> is returned.
\<close>

theorem Get_absent_bucket_counterexample:
  "fst (Get Map.empty [98] [107]) = Panic"
  by (simp add: Get_eq)

section \<open>Delete\<close>

text \<open>
  Claim C3, at a failing input. \<^verbatim>\<open>Delete\<close> runs \<^verbatim>\<open>b.Delete\<close> inside \<^verbatim>\<open>db.View\<close>, a
  read-only transaction: the engine refuses with \<^verbatim>\<open>ErrTxNotWritable\<close>, the key stays in
  the bucket and a following \<^verbatim>\<open>Get\<close> still returns its value; deleting an absent key
  returns the same error.
\<close>

theorem Delete_keeps_key:
  "Delete [[98] \<mapsto> [([107], [118])]] [98] [107]
     = (Return (Some ErrTxNotWritable), [[98] \<mapsto> [([107], [118])]]) \<and>
   fst (Get (snd (Delete [[98] \<mapsto> [([107], [118])]] [98] [107])) [98] [107])
     = Return (Some [118], None) \<and>
   fst (Delete [[98] \<mapsto> []] [98] [107]) = Return (Some ErrTxNotWritable)"
  by (simp add: Delete_eq Get_eq)

text \<open>The same call of the engine in a writable transaction removes the key.\<close>

lemma Bucket_Delete_writable:
  "Bucket_Delete \<lparr>writable = True, buckets = [[98] \<mapsto> [([107], [118])]]\<rparr> (Some [98]) [107]
     = Return (None, \<lparr>writable = True, buckets = [[98] \<mapsto> []]\<rparr>)"
  by (simp add: Bucket_Delete_def)

section \<open>Incr\<close>

text \<open>
  Claim C4, as amended. In an existing bucket, for a key that is absent, not blank and at
  most 32768 bytes long, \<^verbatim>\<open>Incr\<close> returns 1 on the first call and \<open>N\<close> on the
  \<open>N\<close>-th of \<open>N\<close> calls in a row (\<open>N < 2^64\<close>), without an error, and after each call
  the key holds the counter as its 8 bytes in big-endian order.
\<close>

theorem Incr_counts:
  assumes "d bucket = Some es" "map_of es key = None"
    "0 < length key" "length key \<le> MaxKeySize" "Suc n < 2 ^ 64"
  shows "fst (Incr d bucket key) = Return (1, None) \<and>
     fst (Incr (Incr_times d bucket key n) bucket key) = Return (of_nat (Suc n), None) \<and>
     fst (Get (Incr_times d bucket key (Suc n)) bucket key) =
       Return (Some (BigEndian_PutUint64 (of_nat (Suc n))), None) \<and>
     length (BigEndian_PutUint64 (of_nat (Suc n))) = 8 \<and>
     BigEndian_Uint64 (BigEndian_PutUint64 (of_nat (Suc n))) = Return (of_nat (Suc n))"
proof -
  have n: "n < 2 ^ 64" using assms(5) by simp
  from Incr_times_bucket [of d bucket es key n, OF assms(1-4) n] obtain es' where
    b: "Incr_times d bucket key n bucket = Some es'" and
    m: "map_of es' key = (if n = 0 then None else Some (BigEndian_PutUint64 (of_nat n)))"
    by auto
  have dec: "(case map_of es' key of None \<Rightarrow> Return 0 | Some bs \<Rightarrow> BigEndian_Uint64 bs)
      = Return (of_nat n :: 64 word)"
    by (simp add: m Uint64_PutUint64)
  have nth: "fst (Incr (Incr_times d bucket key n) bucket key) = Return (of_nat (Suc n), None)"
    using assms(3,4) of_nat_not_max [OF assms(5)] by (simp add: Incr_eq b dec)
  have first: "fst (Incr d bucket key) = Return (1, None)"
    using assms by (simp add: Incr_eq math_MaxUint64_def)
  from Incr_times_bucket [of d bucket es key "Suc n", OF assms] obtain es2 where
    "Incr_times d bucket key (Suc n) bucket = Some es2"
    "map_of es2 key = Some (BigEndian_PutUint64 (of_nat (Suc n)))"
    by auto
  then have stored: "fst (Get (Incr_times d bucket key (Suc n)) bucket key) =
           Return (Some (BigEndian_PutUint64 (of_nat (Suc n))), None)"
    by (simp add: Get_eq)
  from first nth stored show ?thesis
    by (simp only: length_PutUint64 Uint64_PutUint64 simp_thms)
qed

theorem Incr_counts_witness:
  "([[98] \<mapsto> []] :: db) [98] = Some [] \<and> map_of ([] :: bucket) [107] = None \<and>
   0 < length [107 :: byte] \<and> length [107 :: byte] \<le> MaxKeySize \<and> Suc 2 < (2 :: nat) ^ 64 \<and>
   fst (Incr (Incr_times [[98] \<mapsto> []] [98] [107] 2) [98] [107]) = Return (3, None) \<and>
   fst (Get (Incr_times [[98] \<mapsto> []] [98] [107] (Suc 2)) [98] [107]) =
     Return (Some [0, 0, 0, 0, 0, 0, 0, 3], None)"
proof -
  have h: "[[98 :: byte] \<mapsto> []] [98] = Some ([] :: bucket)"
    "map_of ([] :: bucket) [107] = None"
    "0 < length [107 :: byte]" "length [107 :: byte] \<le> MaxKeySize" "Suc 2 < (2 :: nat) ^ 64"
    by (simp_all add: MaxKeySize_def)
  have e: "BigEndian_PutUint64 3 = [0, 0, 0, 0, 0, 0, 0, 3]"
    by (simp add: BigEndian_PutUint64_def)
  from Incr_counts [of "[[98] \<mapsto> []]" "[98]" "[]" "[107]" 2, OF h] h e
  show ?thesis by simp
qed

text \<open>
  Claim C4 as stated fails at the blank key: every call returns 1 next to the error
  \<^verbatim>\<open>ErrKeyRequired\<close> and nothing is stored, so the second call does not return 2.
\<close>

theorem Incr_blank_key_counterexample:
  "fst (Incr (snd (Incr [[98] \<mapsto> []] [98] [])) [98] []) = Return (1, Some ErrKeyRequired)"
  by (simp add: Incr_eq math_MaxUint64_def)

text \<open>
  The \<^verbatim>\<open>Incr\<close> of lines 49 to 65 saturates. In an existing bucket, when the value stored
  under the key decodes to the maximum \<open>0xFFFFFFFFFFFFFFFF\<close>, it returns that maximum with
  no error and leaves the database, hence the stored counter, as it was.
\<close>

theorem Incr_saturates:
  assumes "d bucket = Some es" "map_of es key = Some bs"
    "BigEndian_Uint64 bs = Return math_MaxUint64"
  shows "Incr d bucket key = (Return (math_MaxUint64, None), d) \<and>
     fst (Get (snd (Incr d bucket key)) bucket key) = Return (Some bs, None) \<and>
     math_MaxUint64 = 0xFFFFFFFFFFFFFFFF"
  using assms by (simp add: Incr_eq Get_eq math_MaxUint64_def)

theorem Incr_saturates_witness:
  "fst (Incr [[98] \<mapsto> [([107], [255, 255, 255, 255, 255, 255, 255, 255])]] [98] [107])
     = Return (0xFFFFFFFFFFFFFFFF, None) \<and>
   fst (Get (snd (Incr [[98] \<mapsto> [([107], [255, 255, 255, 255, 255, 255, 255, 255])]] [98] [107]))
          [98] [107])
     = Return (Some [255, 255, 255, 255, 255, 255, 255, 255], None)"
proof -
  let ?es = "[([107], [255, 255, 255, 255, 255, 255, 255, 255])] :: bucket"
  have h: "[[98 :: byte] \<mapsto> ?es] [98] = Some ?es"
    "map_of ?es [107] = Some [255, 255, 255, 255, 255, 255, 255, 255]"
    "BigEndian_Uint64 [255, 255, 255, 255, 255, 255, 255, 255] = Return math_MaxUint64"
    by (simp_all add: BigEndian_Uint64_def math_MaxUint64_def)
  from Incr_saturates [of "[[98] \<mapsto> ?es]" "[98]" ?es "[107]"
      "[255, 255, 255, 255, 255, 255, 255, 255]", OF h]
  show ?thesis by (auto simp add: math_MaxUint64_def)
qed

text \<open>
  The related copy of \<^verbatim>\<open>Incr\<close> (lines 191 to 204) does what \<^verbatim>\<open>Incr\<close> does unless
  the stored counter is at the maximum.
\<close>

lemma Incr_related_eq:
  "Incr_related d bucket key =
     (case d bucket of
        None \<Rightarrow> (Panic, d)
      | Some es \<Rightarrow>
          (case (case map_of es key of None \<Rightarrow> Return 0 | Some bs \<Rightarrow> BigEndian_Uint64 bs) of
             Panic \<Rightarrow> (Panic, d)
           | Return n \<Rightarrow>
               if length key = 0 then (Return (n + 1, Some ErrKeyRequired), d)
               else if MaxKeySize < length key then (Return (n + 1, Some ErrKeyTooLarge), d)
               else (Return (n + 1, None),
                     d(bucket \<mapsto> node_put key (BigEndian_PutUint64 (n + 1)) es))))"
  by (simp add: Incr_related_def facade_defs length_PutUint64 MaxValueSize_def Let_def
      split: option.splits outcome.splits)

lemma Incr_related_agrees:
  "Incr_related d bucket key = Incr d bucket key \<or>
   (\<exists>es bs. d bucket = Some es \<and> map_of es key = Some bs \<and>
      BigEndian_Uint64 bs = Return math_MaxUint64)"
  by (auto simp add: Incr_related_eq Incr_eq math_MaxUint64_def
      split: option.splits outcome.splits)


text \<open>
  Claim C5, at a failing input. The related copy of \<^verbatim>\<open>Incr\<close> (lines 191 to 204) has no
  check for the maximum, which the \<^verbatim>\<open>Incr\<close> of lines 49 to 65 has. After
  \<^verbatim>\<open>Save\<close> has stored eight bytes \<open>0xFF\<close> under a key, the related copy wraps around:
  it returns 0 with no error and stores eight zero bytes, where the guarded \<^verbatim>\<open>Incr\<close>
  returns the maximum.
\<close>

theorem Incr_related_wraps:
  "fst (Save [[98] \<mapsto> []] [98] [107] [255, 255, 255, 255, 255, 255, 255, 255]) = Return None \<and>
   Incr_related (snd (Save [[98] \<mapsto> []] [98] [107] [255, 255, 255, 255, 255, 255, 255, 255]))
       [98] [107]
     = (Return (0, None), [[98] \<mapsto> [([107], [0, 0, 0, 0, 0, 0, 0, 0])]]) \<and>
   fst (Get (snd (Incr_related
          (snd (Save [[98] \<mapsto> []] [98] [107] [255, 255, 255, 255, 255, 255, 255, 255]))
          [98] [107])) [98] [107])
     = Return (Some [0, 0, 0, 0, 0, 0, 0, 0], None) \<and>
   fst (Incr (snd (Save [[98] \<mapsto> []] [98] [107] [255, 255, 255, 255, 255, 255, 255, 255]))
       [98] [107])
     = Return (0xFFFFFFFFFFFFFFFF, None)"
  by (simp add: Save_eq Incr_related_eq Incr_eq Get_eq BigEndian_Uint64_def
      BigEndian_PutUint64_def MaxKeySize_def MaxValueSize_def math_MaxUint64_def)

section \<open>Scans\<close>

text \<open>
  The order of a bucket is kept by everything the facade does to a new store.
\<close>

lemma reachable_wf_bucket: "reachable d \<Longrightarrow> d bucket = Some es \<Longrightarrow> wf_bucket es"
  by (rule wf_db_bucket [OF reachable_wf])

text \<open>
  Claim C6. On an existing bucket, \<^verbatim>\<open>Scan\<close> calls the visitor on the entries of the
  bucket in their order, which is strictly ascending in \<^verbatim>\<open>bytes.Compare\<close> with every
  key once, and stops after the first entry on which the visitor returns false: a visitor
  that logs its calls and decides by \<open>go\<close> logs exactly \<open>visited go es\<close>, which is the
  whole bucket when \<open>go\<close> never returns false.
\<close>

theorem Scan_visits_ascending:
  assumes "d bucket = Some es" "wf_bucket es"
  shows "Scan d bucket next s = (case visit next es s of (err, s') \<Rightarrow> (Return (s', err), d)) \<and>
     map_outcome fst (fst (Scan d bucket (logging go) [])) = Return (visited go es) \<and>
     ((\<forall>e \<in> set es. go (fst e) (snd e)) \<longrightarrow> visited go es = es) \<and>
     (\<exists>rest. es = visited go es @ rest) \<and>
     (\<forall>e \<in> set (butlast (visited go es)). go (fst e) (snd e)) \<and>
     sorted_wrt (\<lambda>a b. bytes_Compare (fst a) (fst b) < 0) (visited go es) \<and>
     distinct (map fst (visited go es))"
proof -
  obtain rest where rest: "es = visited go es @ rest"
    using visited_prefix [of es go] ..
  have "sorted_wrt (\<lambda>a b. bytes_Compare (fst a) (fst b) < 0) (visited go es @ rest)"
    using wf_bucket_entries [OF assms(2)] rest by simp
  then have order: "sorted_wrt (\<lambda>a b. bytes_Compare (fst a) (fst b) < 0) (visited go es)"
    by (simp add: sorted_wrt_append)
  have "distinct (map fst (visited go es @ rest))"
    using wf_bucket_distinct [OF assms(2)] rest by simp
  then have once: "distinct (map fst (visited go es))" by simp
  have scan: "Scan d bucket next s = (case visit next es s of (err, s') \<Rightarrow> (Return (s', err), d))"
    by (simp add: Scan_eq assms(1))
  have log: "map_outcome fst (fst (Scan d bucket (logging go) [])) = Return (visited go es)"
    by (simp add: Scan_eq assms(1) visit_logging)
  from scan log order once rest visited_all [of es go] visited_butlast [of go es]
  show ?thesis by blast
qed

theorem Scan_visits_ascending_witness:
  "run_ops [[98] \<mapsto> []] [98] [OpSave [97] [1], OpSave [99] [3], OpSave [98] [2]] [98]
     = Some [([97], [1]), ([98], [2]), ([99], [3])] \<and>
   wf_bucket [([97], [1]), ([98], [2]), ([99], [3])] \<and>
   map_outcome fst (fst (Scan
       (run_ops [[98] \<mapsto> []] [98] [OpSave [97] [1], OpSave [99] [3], OpSave [98] [2]])
       [98] (logging (\<lambda>k v. True)) []))
     = Return [([97], [1]), ([98], [2]), ([99], [3])] \<and>
   map_outcome fst (fst (Scan
       (run_ops [[98] \<mapsto> []] [98] [OpSave [97] [1], OpSave [99] [3], OpSave [98] [2]])
       [98] (logging (\<lambda>k v. k \<noteq> [98])) []))
     = Return [([97], [1]), ([98], [2])]"
proof -
  let ?d = "run_ops [[98] \<mapsto> []] [98] [OpSave [97] [1], OpSave [99] [3], OpSave [98] [2]]"
  let ?es = "[([97], [1]), ([98], [2]), ([99], [3])] :: bucket"
  have h: "?d [98] = Some ?es" "wf_bucket ?es"
    by (simp_all add: Save_eq MaxKeySize_def MaxValueSize_def wf_bucket_def)
  have v: "visited (\<lambda>k v. True) ?es = ?es" "visited (\<lambda>k v. k \<noteq> [98]) ?es = [([97], [1]), ([98], [2])]"
    by (simp_all add: visited_def)
  from Scan_visits_ascending [of ?d "[98]" ?es "logging (\<lambda>k v. True)" "[]" "\<lambda>k v. True", OF h]
  have a: "map_outcome fst (fst (Scan ?d [98] (logging (\<lambda>k v. True)) [])) = Return ?es"
    unfolding v by blast
  from Scan_visits_ascending [of ?d "[98]" ?es "logging (\<lambda>k v. True)" "[]" "\<lambda>k v. k \<noteq> [98]", OF h]
  have b: "map_outcome fst (fst (Scan ?d [98] (logging (\<lambda>k v. k \<noteq> [98])) []))
      = Return [([97], [1]), ([98], [2])]"
    unfolding v by blast
  show ?thesis by (intro conjI) (fact h a b)+
qed


text \<open>
  Claim C9. On an existing bucket, \<^verbatim>\<open>FindPrefix\<close> calls the visitor exactly as a scan over
  the entries whose key starts with the prefix would, in the order of the bucket: a
  visitor that never returns false is called on exactly these entries, in strictly
  ascending key order, and on no entry whose key lacks the prefix.
\<close>

theorem FindPrefix_visits_prefix:
  assumes "d bucket = Some es" "wf_bucket es"
  shows "FindPrefix d bucket prefix next s =
       (case visit next (filter (\<lambda>e. bytes_HasPrefix (fst e) prefix) es) s of
          (err, s') \<Rightarrow> (Return (s', err), d)) \<and>
     fst (FindPrefix d bucket prefix (logging (\<lambda>k v. True)) []) =
       Return (filter (\<lambda>e. bytes_HasPrefix (fst e) prefix) es, None) \<and>
     sorted_wrt (\<lambda>a b. bytes_Compare (fst a) (fst b) < 0)
       (filter (\<lambda>e. bytes_HasPrefix (fst e) prefix) es) \<and>
     distinct (map fst (filter (\<lambda>e. bytes_HasPrefix (fst e) prefix) es))"
proof -
  let ?sel = "filter (\<lambda>e. bytes_HasPrefix (fst e) prefix) es"
  have "fst (FindPrefix d bucket prefix (logging (\<lambda>k v. True)) []) = Return (?sel, None)"
    by (simp add: FindPrefix_eq [of d bucket es, OF assms] visit_logging visited_all)
  moreover have "sorted_wrt (\<lambda>a b. bytes_Compare (fst a) (fst b) < 0) ?sel"
    using wf_bucket_entries [OF assms(2)] by (rule sorted_wrt_filter)
  moreover have "distinct (map fst ?sel)"
    using wf_bucket_distinct [OF assms(2)] by (rule distinct_map_filter)
  ultimately show ?thesis
    using FindPrefix_eq [of d bucket es prefix "next" s, OF assms] by blast
qed

theorem FindPrefix_visits_prefix_witness:
  "([[98] \<mapsto> [([98, 97, 114], [1]), ([102, 111, 101], [2]), ([102, 111, 111], [3]),
       ([102, 111, 111, 100], [4])]] :: db) [98]
     = Some [([98, 97, 114], [1]), ([102, 111, 101], [2]), ([102, 111, 111], [3]),
       ([102, 111, 111, 100], [4])] \<and>
   wf_bucket [([98, 97, 114], [1]), ([102, 111, 101], [2]), ([102, 111, 111], [3]),
       ([102, 111, 111, 100], [4])] \<and>
   fst (FindPrefix [[98] \<mapsto> [([98, 97, 114], [1]), ([102, 111, 101], [2]), ([102, 111, 111], [3]),
       ([102, 111, 111, 100], [4])]] [98] [102, 111] (logging (\<lambda>k v. True)) [])
     = Return ([([102, 111, 101], [2]), ([102, 111, 111], [3]), ([102, 111, 111, 100], [4])], None)"
proof -
  let ?es = "[([98, 97, 114], [1]), ([102, 111, 101], [2]), ([102, 111, 111], [3]),
       ([102, 111, 111, 100], [4])] :: bucket"
  have h1: "[[98 :: byte] \<mapsto> ?es] [98] = Some ?es"
    by simp
  have h2: "wf_bucket ?es"
    by (simp add: wf_bucket_def)
  note h = h1 h2
  have sel: "filter (\<lambda>e. bytes_HasPrefix (fst e) [102, 111]) ?es
      = [([102, 111, 101], [2]), ([102, 111, 111], [3]), ([102, 111, 111, 100], [4])]"
    by (simp add: bytes_HasPrefix_def)
  from FindPrefix_visits_prefix [of "[[98] \<mapsto> ?es]" "[98]" ?es "[102, 111]"
      "logging (\<lambda>k v. True)" "[]", OF h]
  have a: "fst (FindPrefix [[98] \<mapsto> ?es] [98] [102, 111] (logging (\<lambda>k v. True)) [])
     = Return ([([102, 111, 101], [2]), ([102, 111, 111], [3]), ([102, 111, 111, 100], [4])], None)"
    unfolding sel by blast
  show ?thesis by (intro conjI) (fact h a)+
qed

text \<open>
  Claim C8. On an existing bucket, \<^verbatim>\<open>FindBetween\<close> with \<open>start \<le> end\<close> calls the visitor
  exactly as a scan over the entries with \<open>start \<le> key \<le> end\<close> would, both bounds
  included and in strictly ascending key order; and \<^verbatim>\<open>FindBetween\<close> with the bounds
  exchanged does the same as with the bounds in order, one of the two orders always
  being \<open>start \<le> end\<close>.
\<close>

theorem FindBetween_visits_range:
  assumes "d bucket = Some es" "wf_bucket es"
  shows "(bytes_Compare start endk \<le> 0 \<longrightarrow>
        FindBetween d bucket start endk next s =
          (case visit next (filter (\<lambda>e. bytes_Compare start (fst e) \<le> 0 \<and>
                                        bytes_Compare (fst e) endk \<le> 0) es) s of
             (err, s') \<Rightarrow> (Return (s', err), d)) \<and>
        fst (FindBetween d bucket start endk (logging (\<lambda>k v. True)) []) =
          Return (filter (\<lambda>e. bytes_Compare start (fst e) \<le> 0 \<and>
                              bytes_Compare (fst e) endk \<le> 0) es, None)) \<and>
     FindBetween d bucket start endk next s = FindBetween d bucket endk start next s \<and>
     (bytes_Compare start endk \<le> 0 \<or> bytes_Compare endk start \<le> 0) \<and>
     sorted_wrt (\<lambda>a b. bytes_Compare (fst a) (fst b) < 0)
       (filter (\<lambda>e. bytes_Compare start (fst e) \<le> 0 \<and> bytes_Compare (fst e) endk \<le> 0) es)"
proof -
  let ?sel = "filter (\<lambda>e. bytes_Compare start (fst e) \<le> 0 \<and> bytes_Compare (fst e) endk \<le> 0) es"
  have ordered: "fst (FindBetween d bucket start endk (logging (\<lambda>k v. True)) [])
       = Return (?sel, None)" if "bytes_Compare start endk \<le> 0"
    by (simp add: FindBetween_ordered [of d bucket es start endk, OF assms that]
        visit_logging visited_all)
  have total: "bytes_Compare start endk \<le> 0 \<or> bytes_Compare endk start \<le> 0"
    by (auto simp add: bytes_Compare_le)
  have "sorted_wrt (\<lambda>a b. bytes_Compare (fst a) (fst b) < 0) ?sel"
    using wf_bucket_entries [OF assms(2)] by (rule sorted_wrt_filter)
  with ordered total FindBetween_ordered [of d bucket es start endk "next" s, OF assms]
    FindBetween_swap [of d bucket start endk "next" s]
  show ?thesis by blast
qed


theorem FindBetween_visits_range_witness:
  "([[98] \<mapsto> [([97], [1]), ([99], [3]), ([101], [5])]] :: db) [98]
     = Some [([97], [1]), ([99], [3]), ([101], [5])] \<and>
   wf_bucket [([97], [1]), ([99], [3]), ([101], [5])] \<and>
   fst (FindBetween [[98] \<mapsto> [([97], [1]), ([99], [3]), ([101], [5])]] [98] [98] [109]
          (logging (\<lambda>k v. True)) [])
     = Return ([([99], [3]), ([101], [5])], None) \<and>
   fst (FindBetween [[98] \<mapsto> [([97], [1]), ([99], [3]), ([101], [5])]] [98] [109] [98]
          (logging (\<lambda>k v. True)) [])
     = Return ([([99], [3]), ([101], [5])], None)"
proof -
  let ?es = "[([97], [1]), ([99], [3]), ([101], [5])] :: bucket"
  let ?d = "[[98] \<mapsto> ?es] :: db"
  have h1: "?d [98] = Some ?es" by simp
  have h2: "wf_bucket ?es" by (simp add: wf_bucket_def)
  have le: "bytes_Compare [98] [109] \<le> 0" by simp
  have sel: "filter (\<lambda>e. bytes_Compare [98] (fst e) \<le> 0 \<and> bytes_Compare (fst e) [109] \<le> 0) ?es
      = [([99], [3]), ([101], [5])]"
    by simp
  note inst = FindBetween_visits_range [of ?d "[98]" ?es "[98]" "[109]"
      "logging (\<lambda>k v. True)" "[]", OF h1 h2]
  from inst le have a: "fst (FindBetween ?d [98] [98] [109] (logging (\<lambda>k v. True)) [])
      = Return ([([99], [3]), ([101], [5])], None)"
    unfolding sel by blast
  from inst have "FindBetween ?d [98] [98] [109] (logging (\<lambda>k v. True)) []
      = FindBetween ?d [98] [109] [98] (logging (\<lambda>k v. True)) []"
    by blast
  with a have b: "fst (FindBetween ?d [98] [109] [98] (logging (\<lambda>k v. True)) [])
      = Return ([([99], [3]), ([101], [5])], None)"
    by simp
  show ?thesis by (intro conjI) (fact h1 h2 a b)+
qed

text \<open>
  Claim C7, as amended. On an existing bucket, each of \<^verbatim>\<open>Scan\<close>, \<^verbatim>\<open>FindPrefix\<close> and
  \<^verbatim>\<open>FindBetween\<close> returns without a panic what \<open>visit\<close> gives on the entries the
  operation selects, for every visitor and every state of the visitor. The visitor is
  called in turn until it returns false; the scan ends at that entry, calls the visitor
  on no later entry and returns the error \<^verbatim>\<open>io.EOF\<close> to the caller with the visitor's
  state after that call. The error is \<^verbatim>\<open>nil\<close> or \<^verbatim>\<open>io.EOF\<close>, and it is \<^verbatim>\<open>io.EOF\<close>
  only when some call of the visitor returned false, so it is \<^verbatim>\<open>nil\<close> exactly when the
  visitor never returned false. A logging visitor that decides by \<open>go\<close> logs exactly
  the entries up to and including the first one that \<open>go\<close> rejects.
\<close>

theorem early_stop_returns_EOF:
  assumes "d bucket = Some es" "wf_bucket es"
  shows "Scan d bucket next s =
       (case visit next es s of (err, s') \<Rightarrow> (Return (s', err), d)) \<and>
     FindPrefix d bucket prefix next s =
       (case visit next (filter (\<lambda>e. bytes_HasPrefix (fst e) prefix) es) s of
          (err, s') \<Rightarrow> (Return (s', err), d)) \<and>
     FindBetween d bucket start endk next s =
       (case visit next
          (filter (\<lambda>e. bytes_Compare (if 0 < bytes_Compare start endk then endk else start)
                          (fst e) \<le> 0 \<and>
                        bytes_Compare (fst e)
                          (if 0 < bytes_Compare start endk then start else endk) \<le> 0) es) s of
          (err, s') \<Rightarrow> (Return (s', err), d)) \<and>
     (visit next pre s = (None, s0) \<and> \<not> fst (next k v s0) \<longrightarrow>
        visit next (pre @ (k, v) # post) s = (Some io_EOF, snd (next k v s0))) \<and>
     (fst (visit next xs s) = None \<or> fst (visit next xs s) = Some io_EOF) \<and>
     (fst (visit next xs s) = Some io_EOF \<longrightarrow>
        (\<exists>pre k v post s0. xs = pre @ (k, v) # post \<and> visit next pre s = (None, s0) \<and>
           \<not> fst (next k v s0))) \<and>
     visit (logging go) xs [] =
       (if \<forall>e \<in> set xs. go (fst e) (snd e) then None else Some io_EOF, visited go xs) \<and>
     stop_reported go (fst (Scan d bucket (logging go) [])) \<and>
     stop_reported go (fst (FindPrefix d bucket prefix (logging go) [])) \<and>
     stop_reported go (fst (FindBetween d bucket start endk (logging go) []))"
proof -
  have scan: "Scan d bucket next s =
       (case visit next es s of (err, s') \<Rightarrow> (Return (s', err), d))"
    by (simp add: Scan_eq assms(1))
  note pre = FindPrefix_eq [of d bucket es prefix "next" s, OF assms]
  note btw = FindBetween_eq [of d bucket es start endk "next" s, OF assms]
  have stops: "visit next (pre @ (k, v) # post) s = (Some io_EOF, snd (next k v s0))"
    if "visit next pre s = (None, s0) \<and> \<not> fst (next k v s0)"
    using that by (auto intro: visit_stops_at)
  note err = visit_error [of "next" xs s]
  have split: "\<exists>pre k v post s0. xs = pre @ (k, v) # post \<and> visit next pre s = (None, s0) \<and>
           \<not> fst (next k v s0)" if "fst (visit next xs s) = Some io_EOF"
    using that by (rule visit_EOF_split)
  have log: "visit (logging go) xs [] =
       (if \<forall>e \<in> set xs. go (fst e) (snd e) then None else Some io_EOF, visited go xs)"
    by (simp add: visit_logging)
  have r1: "stop_reported go (fst (Scan d bucket (logging go) []))"
    using stop_reported_visit [where go = go and xs = es and d = d] by (simp add: Scan_eq assms(1))
  have r2: "stop_reported go (fst (FindPrefix d bucket prefix (logging go) []))"
    unfolding FindPrefix_eq [of d bucket es, OF assms] by (rule stop_reported_visit)
  have r3: "stop_reported go (fst (FindBetween d bucket start endk (logging go) []))"
    unfolding FindBetween_eq [of d bucket es, OF assms] by (rule stop_reported_visit)
  show ?thesis
    by (intro conjI impI) (fact scan pre btw err log r1 r2 r3 | erule stops | erule split)+
qed


theorem early_stop_returns_EOF_witness:
  "([[98] \<mapsto> [([97], [1]), ([99], [3]), ([101], [5])]] :: db) [98]
     = Some [([97], [1]), ([99], [3]), ([101], [5])] \<and>
   wf_bucket [([97], [1]), ([99], [3]), ([101], [5])] \<and>
   fst (Scan [[98] \<mapsto> [([97], [1]), ([99], [3]), ([101], [5])]] [98]
          (\<lambda>k v n. (n < 1, n + 1)) (0 :: nat))
     = Return (2, Some io_EOF) \<and>
   fst (FindPrefix [[98] \<mapsto> [([97], [1]), ([99], [3]), ([101], [5])]] [98] [99]
          (\<lambda>k v n. (n < 1, n + 1)) (0 :: nat))
     = Return (1, None) \<and>
   fst (FindBetween [[98] \<mapsto> [([97], [1]), ([99], [3]), ([101], [5])]] [98] [122] [98]
          (\<lambda>k v n. (n < 1, n + 1)) (0 :: nat))
     = Return (2, Some io_EOF) \<and>
   visit (\<lambda>k v n. (n < 1, n + 1)) [([97], [1])] (0 :: nat) = (None, 1) \<and>
   \<not> fst ((\<lambda>k v n. (n < 1, n + 1)) [99] [3] (1 :: nat)) \<and>
   visit (\<lambda>k v n. (n < 1, n + 1)) ([([97], [1])] @ ([99], [3]) # [([101], [5])]) (0 :: nat)
     = (Some io_EOF, 2)"
proof -
  let ?es = "[([97], [1]), ([99], [3]), ([101], [5])] :: bucket"
  let ?d = "[[98] \<mapsto> ?es] :: db"
  let ?cnt = "(\<lambda>k v n. (n < 1, n + 1)) :: nat visitor"
  have h1: "?d [98] = Some ?es" by simp
  have h2: "wf_bucket ?es" by (simp add: wf_bucket_def)
  note inst = early_stop_returns_EOF [of ?d "[98]" ?es ?cnt 0 "[99]" "[122]" "[98]"
      "[([97], [1])]" 1 "[99]" "[3]" "[([101], [5])]" "[]" "\<lambda>k v. True", OF h1 h2]
  have p: "visit ?cnt [([97], [1])] 0 = (None, 1)" by simp
  have q: "\<not> fst (?cnt [99] [3] 1)" by simp
  from inst have "Scan ?d [98] ?cnt 0 =
      (case visit ?cnt ?es 0 of (err, s') \<Rightarrow> (Return (s', err), ?d))"
    by blast
  then have a: "fst (Scan ?d [98] ?cnt 0) = Return (2, Some io_EOF)"
    by simp
  from inst have "FindPrefix ?d [98] [99] ?cnt 0 =
      (case visit ?cnt (filter (\<lambda>e. bytes_HasPrefix (fst e) [99]) ?es) 0 of
         (err, s') \<Rightarrow> (Return (s', err), ?d))"
    by blast
  then have b: "fst (FindPrefix ?d [98] [99] ?cnt 0) = Return (1, None)"
    by (simp add: bytes_HasPrefix_def)
  from inst have "FindBetween ?d [98] [122] [98] ?cnt 0 =
      (case visit ?cnt
          (filter (\<lambda>e. bytes_Compare (if 0 < bytes_Compare [122] [98] then [98] else [122])
                          (fst e) \<le> 0 \<and>
                        bytes_Compare (fst e)
                          (if 0 < bytes_Compare [122] [98] then [122] else [98]) \<le> 0) ?es) 0 of
          (err, s') \<Rightarrow> (Return (s', err), ?d))"
    by blast
  then have c: "fst (FindBetween ?d [98] [122] [98] ?cnt 0) = Return (2, Some io_EOF)"
    by simp
  from inst p q have "visit ?cnt ([([97], [1])] @ ([99], [3]) # [([101], [5])]) 0
      = (Some io_EOF, snd (?cnt [99] [3] 1))"
    by blast
  then have e: "visit ?cnt ([([97], [1])] @ ([99], [3]) # [([101], [5])]) 0 = (Some io_EOF, 2)"
    by simp
  show ?thesis by (intro conjI) (fact h1 h2 a b c p q e)+
qed

text \<open>
  Claim C7 as stated fails: a visitor that returns false on the first entry makes each of
  the three scans return \<^verbatim>\<open>io.EOF\<close>, not \<^verbatim>\<open>nil\<close>.
\<close>

theorem early_stop_counterexample:
  "fst (Scan [[98] \<mapsto> [([107], [118])]] [98] (\<lambda>k v s. (False, s)) ()) = Return ((), Some io_EOF) \<and>
   fst (FindPrefix [[98] \<mapsto> [([107], [118])]] [98] [107] (\<lambda>k v s. (False, s)) ())
     = Return ((), Some io_EOF) \<and>
   fst (FindBetween [[98] \<mapsto> [([107], [118])]] [98] [97] [122] (\<lambda>k v s. (False, s)) ())
     = Return ((), Some io_EOF)"
  by (simp add: Scan_eq FindPrefix_unfold FindBetween_unfold Cursor_Seek_def bytes_HasPrefix_def)

section \<open>An absent bucket\<close>

text \<open>
  Claim C10. When the bucket does not exist, each of \<^verbatim>\<open>Incr\<close>, \<^verbatim>\<open>Save\<close>, \<^verbatim>\<open>Get\<close>,
  \<^verbatim>\<open>Delete\<close>, \<^verbatim>\<open>Scan\<close>, \<^verbatim>\<open>FindPrefix\<close> and \<^verbatim>\<open>FindBetween\<close> panics on the
  \<^verbatim>\<open>nil\<close> bucket handle instead of returning an error, and the database is unchanged.
\<close>

theorem absent_bucket_panics:
  assumes "d bucket = None"
  shows "Incr d bucket key = (Panic, d) \<and>
     Save d bucket key val = (Panic, d) \<and>
     Get d bucket key = (Panic, d) \<and>
     Delete d bucket key = (Panic, d) \<and>
     Scan d bucket next s = (Panic, d) \<and>
     FindPrefix d bucket prefix next s = (Panic, d) \<and>
     FindBetween d bucket start endk next s = (Panic, d)"
  using assms
  by (simp add: Incr_eq Save_eq Get_eq Delete_eq Scan_eq FindPrefix_unfold FindBetween_unfold)

theorem absent_bucket_panics_witness:
  "(Map.empty :: db) [98] = None \<and>
   fst (Incr Map.empty [98] [107]) = Panic \<and>
   fst (Save Map.empty [98] [107] [118]) = Panic \<and>
   fst (Get Map.empty [98] [107]) = Panic \<and>
   fst (Delete Map.empty [98] [107]) = Panic \<and>
   fst (Scan Map.empty [98] (logging (\<lambda>k v. True)) []) = Panic \<and>
   fst (FindPrefix Map.empty [98] [102] (logging (\<lambda>k v. True)) []) = Panic \<and>
   fst (FindBetween Map.empty [98] [97] [122] (logging (\<lambda>k v. True)) []) = Panic"
  using absent_bucket_panics [of Map.empty "[98]" "[107]" "[118]" "logging (\<lambda>k v. True)" "[]"
      "[102]" "[97]" "[122]"]
  by simp

end
